theory Spec2Isabelle
  imports Complex_Main "HOL-Library.AList"
begin

section \<open>Coordinator: chunk planning (\<open>Coordinator._split_file\<close>)\<close>

text \<open>
  \<^verbatim>\<open>
  def _split_file(self, filepath, file_size, chunk_size):
      chunks = []
      start = 0
      while start < file_size:
          chunks.append((start, chunk_size))
          start += chunk_size
      return chunks
  \<close>
  Python integers are unbounded, so \<open>file_size\<close>, \<open>chunk_size\<close> and \<open>start\<close> are
  \<open>int\<close>. A chunk is the tuple \<open>(start, chunk_size)\<close>. The source has no check on
  \<open>chunk_size\<close> and no \<open>raise\<close>; the only way the function can fail to return a list
  is by looping forever, so the loop is a partial function whose value \<open>None\<close> means
  "does not return". The argument \<open>filepath\<close> is not used by the body; the handler
  passes it the decoded request field, whatever its type.
\<close>

type_synonym chunk = "int \<times> int"

partial_function (option) split_loop :: "int \<Rightarrow> int \<Rightarrow> int \<Rightarrow> chunk list \<Rightarrow> chunk list option" where
  "split_loop file_size chunk_size start chunks =
     (if start < file_size
      then split_loop file_size chunk_size (start + chunk_size) (chunks @ [(start, chunk_size)])
      else Some chunks)"

definition split_file :: "'p \<Rightarrow> int \<Rightarrow> int \<Rightarrow> chunk list option" where
  "split_file filepath file_size chunk_size = split_loop file_size chunk_size 0 []"

text \<open>
  The number of iterations the loop makes for a positive \<open>chunk_size\<close>: the quotient
  \<open>file_size / chunk_size\<close> rounded up. It is not part of the source; the theorems use it
  to name the length of the plan.
\<close>

definition chunk_count :: "int \<Rightarrow> int \<Rightarrow> nat" where
  "chunk_count file_size chunk_size = nat ((file_size + chunk_size - 1) div chunk_size)"

section \<open>Exceptions and decoded request bodies\<close>

text \<open>
  The source defines no exception class of its own. The exceptions below are the Python
  ones its statements raise: \<open>request.json()\<close> on a body that is not JSON, a subscript
  \<open>data["k"]\<close> on a dict without the key or on a value that is no dict, the lookup of a
  name bound nowhere, \<open>i % 0\<close>, a failed HTTP call, a failed \<open>os.path.getsize\<close>, and
  unpacking a tuple into the wrong number of names.
  \<open>exn_name\<close> is the class name, by which an error kind is recognised.
\<close>

datatype exn =
    JSONDecodeError
  | KeyError string
  | TypeError
  | NameError string
  | ZeroDivisionError
  | ClientError
  | OSError
  | ValueError


text \<open>
  A decoded JSON value, as \<open>json.loads\<close> returns it: a dict is an association list with
  distinct keys, read with \<open>map_of\<close>. Numbers are restricted to integers: the only number
  a request carries, \<open>chunk_size\<close>, is an integer count of bytes.
\<close>

datatype json =
    JNull
  | JBool bool
  | JInt int
  | JStr string
  | JArr "json list"
  | JObj "(string \<times> json) list"

text \<open>
  \<open>await request.json()\<close>: the request is the decoded body, or \<open>None\<close> when the body
  is not valid JSON and the call raises.
\<close>

definition request_json :: "json option \<Rightarrow> exn + json" where
  "request_json request = (case request of None \<Rightarrow> Inl JSONDecodeError | Some data \<Rightarrow> Inr data)"

text \<open>
  \<open>data[key]\<close> with a string key: a dict without the key raises KeyError; a list, a
  string, a number, a boolean and \<open>None\<close> raise TypeError.
\<close>

fun subscript :: "json \<Rightarrow> string \<Rightarrow> exn + json" where
  "subscript (JObj kvs) key =
     (case map_of kvs key of None \<Rightarrow> Inl (KeyError key) | Some v \<Rightarrow> Inr v)"
| "subscript _ key = Inl TypeError"

text \<open>
  Name resolution inside a method: a name that is not local is looked up in the module's
  globals, then in the builtins. \<open>coordinator.py\<close> binds, at module level, the names of
  its six imports (\<open>from typing import List\<close> and \<open>from aiohttp import web\<close> bind
  \<open>List\<close> and \<open>web\<close>), the class, and in the main block \<open>parser\<close>, \<open>args\<close> and
  \<open>coordinator\<close>, beside \<open>__name__\<close>. Of the builtins, those the module refers to are listed; Python's
  builtins hold no \<open>os\<close>.
\<close>

definition module_globals :: "string list" where
  "module_globals =
     [''argparse'', ''asyncio'', ''aiohttp'', ''json'', ''List'', ''web'', ''Coordinator'',
      ''parser'', ''args'', ''coordinator'', ''__name__'']"

definition builtins :: "string list" where
  "builtins = [''print'', ''list'', ''len'', ''enumerate'', ''int'', ''str'', ''dict'', ''tuple'']"

definition lookup_name :: "string \<Rightarrow> exn + unit" where
  "lookup_name name =
     (if name \<in> set module_globals \<or> name \<in> set builtins then Inr () else Inl (NameError name))"

section \<open>Coordinator: worker registry\<close>

text \<open>
  \<open>self.workers\<close> is a dict from worker id to the dict
  \<open>{"worker_url": ..., "status": ...}\<close>. A Python dict keeps its keys in insertion order,
  and the dispatcher reads that order, so the registry is an association list: assigning
  to an existing key replaces the value where it stands, assigning to a new key appends
  (\<open>AList.update\<close>). Its keys are distinct. Worker ids are strings.
\<close>

record worker_entry =
  worker_url :: string
  status :: string

type_synonym registry = "(string \<times> worker_entry) list"

text \<open>
  \<^verbatim>\<open>
  self.workers[worker_id] = {"worker_url": worker_url, "status": "active"}
  \<close>
  The handlers below start after the request is decoded into its fields and leave the
  response text out.
\<close>

definition handle_worker_registration :: "registry \<Rightarrow> string \<Rightarrow> string \<Rightarrow> registry" where
  "handle_worker_registration workers worker_id url =
     AList.update worker_id \<lparr>worker_url = url, status = ''active''\<rparr> workers"

text \<open>
  \<^verbatim>\<open>
  if worker_id in self.workers:
      self.workers[worker_id]["status"] = "active"
  \<close>
\<close>

definition handle_worker_health_check :: "registry \<Rightarrow> string \<Rightarrow> registry" where
  "handle_worker_health_check workers worker_id =
     (if worker_id \<in> set (map fst workers)
      then AList.map_entry worker_id (\<lambda>entry. entry\<lparr>status := ''active''\<rparr>) workers
      else workers)"

section \<open>Coordinator: aggregation (\<open>Coordinator.aggregate_results\<close>)\<close>

text \<open>
  A worker's result and the aggregate are both dicts with the same four keys, so one
  record serves both. \<open>requests_per_second\<close> and \<open>malformed_lines\<close> are Python ints;
  \<open>avg_response_time\<close> and \<open>error_rate\<close> are Python floats, taken here as real numbers
  (the rounding of floating-point arithmetic is not modelled).
  \<^verbatim>\<open>
  total_requests = 0; total_time = 0; total_malformed = 0
  for result in results:
      total_requests += result["requests_per_second"]
      total_time += result["avg_response_time"] * result["requests_per_second"]
      total_malformed += result["malformed_lines"]
  aggregated["requests_per_second"] = total_requests
  aggregated["avg_response_time"] = total_time / total_requests if total_requests > 0 else 0
  aggregated["malformed_lines"] = total_malformed
  \<close>
  \<open>aggregated["error_rate"]\<close> keeps its initial value \<open>0.0\<close>.
\<close>

record metrics =
  avg_response_time :: real
  requests_per_second :: int
  error_rate :: real
  malformed_lines :: int

fun aggregate_loop :: "metrics list \<Rightarrow> int \<Rightarrow> real \<Rightarrow> int \<Rightarrow> int \<times> real \<times> int" where
  "aggregate_loop [] total_requests total_time total_malformed =
     (total_requests, total_time, total_malformed)"
| "aggregate_loop (result # results) total_requests total_time total_malformed =
     aggregate_loop results
       (total_requests + requests_per_second result)
       (total_time + avg_response_time result * real_of_int (requests_per_second result))
       (total_malformed + malformed_lines result)"

definition aggregate_results :: "metrics list \<Rightarrow> metrics" where
  "aggregate_results results =
     (case aggregate_loop results 0 0 0 of
        (total_requests, total_time, total_malformed) \<Rightarrow>
          \<lparr>avg_response_time =
             (if total_requests > 0 then total_time / real_of_int total_requests else 0),
           requests_per_second = total_requests,
           error_rate = 0,
           malformed_lines = total_malformed\<rparr>)"

section \<open>Coordinator: dispatch (\<open>Coordinator.handle_process_chunk\<close>)\<close>

text \<open>
  The body of the request sent to a worker:
  \<open>{"filepath": filepath, "start": chunk[0], "size": chunk[1]}\<close>.
\<close>

record chunk_data =
  body_filepath :: json
  body_start :: int
  body_size :: int

text \<open>
  \<^verbatim>\<open>
  results = []
  for i, chunk in enumerate(chunks):
      worker_id = list(self.workers.keys())[i % len(self.workers)]
      worker_url = self.workers[worker_id]["worker_url"]
      chunk_data = {"filepath": filepath, "start": chunk[0], "size": chunk[1]}
      async with aiohttp.ClientSession() as session:
          async with session.post(f"{worker_url}/process", json=chunk_data) as resp:
              worker_result = await resp.json()
              results.append(worker_result)
  \<close>
  The network is a parameter \<open>post\<close>: the answer to the \<open>i\<close>-th call, to a URL with a
  body, is a decoded result or an exception, which ends the loop. \<open>self.workers\<close> is
  read anew in every iteration, and between two iterations the handler waits for the
  network, when a registration may be handled; so the registry is a parameter too:
  \<open>workers i\<close> is the registry as iteration \<open>i\<close> finds it (within one iteration nothing
  is awaited between the two reads). The loop returns the results, or the exception,
  together with the list of the calls it made (worker id, URL, body). With an empty
  registry \<open>i % len(self.workers)\<close> divides by zero.
\<close>

type_synonym call = "string \<times> string \<times> chunk_data"

fun dispatch_loop ::
  "(nat \<Rightarrow> string \<Rightarrow> chunk_data \<Rightarrow> exn + metrics) \<Rightarrow> (nat \<Rightarrow> registry) \<Rightarrow> json \<Rightarrow> nat \<Rightarrow>
   chunk list \<Rightarrow> metrics list \<Rightarrow> call list \<Rightarrow> (exn + metrics list) \<times> call list" where
  "dispatch_loop post workers fp i [] results calls = (Inr results, calls)"
| "dispatch_loop post workers fp i (chunk # chunks) results calls =
     (if length (workers i) = 0 then (Inl ZeroDivisionError, calls)
      else
        let worker_id = map fst (workers i) ! (i mod length (workers i)) in
        case map_of (workers i) worker_id of
          None \<Rightarrow> (Inl (KeyError worker_id), calls)
        | Some entry \<Rightarrow>
            (let url = worker_url entry @ ''/process'';
                 body = \<lparr>body_filepath = fp, body_start = fst chunk, body_size = snd chunk\<rparr>
             in (case post i url body of
                   Inl e \<Rightarrow> (Inl e, calls @ [(worker_id, url, body)])
                 | Inr worker_result \<Rightarrow>
                     dispatch_loop post workers fp (Suc i) chunks
                       (results @ [worker_result]) (calls @ [(worker_id, url, body)]))))"

text \<open>
  \<open>chunk_size\<close> comes out of the request as a JSON value. \<open>start += chunk_size\<close> adds it
  to an int: an int is added, a boolean counts as 0 or 1, anything else raises TypeError
  in the first iteration (and is never looked at when the loop body does not run).
\<close>

fun plan_chunks :: "json \<Rightarrow> int \<Rightarrow> json \<Rightarrow> (exn + chunk list) option" where
  "plan_chunks fp file_size (JInt n) = map_option Inr (split_file fp file_size n)"
| "plan_chunks fp file_size (JBool b) = map_option Inr (split_file fp file_size (if b then 1 else 0))"
| "plan_chunks fp file_size _ = (if 0 < file_size then Some (Inl TypeError) else Some (Inr []))"

text \<open>
  \<^verbatim>\<open>
  data = await request.json()
  filepath = data["filepath"]
  chunk_size = data["chunk_size"]
  file_size = os.path.getsize(filepath)
  chunks = self._split_file(filepath, file_size, chunk_size)
  ... the dispatch loop ...
  aggregated_result = self.aggregate_results(results)
  return web.json_response(aggregated_result)
  \<close>
  The file system is a parameter \<open>getsize\<close>, the network and the registry are the
  parameters of the loop. The handler returns what the request ends
  with (\<open>None\<close> when it never ends, an exception, or the aggregate) and the calls made to
  workers. \<open>os\<close> is looked up before anything of \<open>os.path.getsize(filepath)\<close> is
  evaluated.
\<close>

definition handle_process_chunk ::
  "(json \<Rightarrow> exn + int) \<Rightarrow> (nat \<Rightarrow> string \<Rightarrow> chunk_data \<Rightarrow> exn + metrics) \<Rightarrow> (nat \<Rightarrow> registry) \<Rightarrow>
   json option \<Rightarrow> (exn + metrics) option \<times> call list" where
  "handle_process_chunk getsize post workers request =
     (case request_json request of
        Inl e \<Rightarrow> (Some (Inl e), [])
      | Inr data \<Rightarrow>
     (case subscript data ''filepath'' of
        Inl e \<Rightarrow> (Some (Inl e), [])
      | Inr fp \<Rightarrow>
     (case subscript data ''chunk_size'' of
        Inl e \<Rightarrow> (Some (Inl e), [])
      | Inr chunk_size \<Rightarrow>
     (case lookup_name ''os'' of
        Inl e \<Rightarrow> (Some (Inl e), [])
      | Inr _ \<Rightarrow>
     (case getsize fp of
        Inl e \<Rightarrow> (Some (Inl e), [])
      | Inr file_size \<Rightarrow>
     (case plan_chunks fp file_size chunk_size of
        None \<Rightarrow> (None, [])
      | Some (Inl e) \<Rightarrow> (Some (Inl e), [])
      | Some (Inr chunks) \<Rightarrow>
     (case dispatch_loop post workers fp 0 chunks [] [] of
        (Inl e, calls) \<Rightarrow> (Some (Inl e), calls)
      | (Inr results, calls) \<Rightarrow> (Some (Inr (aggregate_results results)), calls))))))))"

section \<open>Worker: the chunk parser (\<open>Worker.process_chunk\<close>)\<close>

text \<open>
  The file is opened in text mode, so a line is a Python \<open>str\<close>: a sequence of code
  points, here natural numbers. \<open>cps\<close> writes an ASCII literal as its code points.
\<close>

type_synonym pystr = "nat list"

definition cps :: "string \<Rightarrow> pystr" where
  "cps s = map of_char s"

text \<open>
  The character classes of a string pattern follow the Unicode database of the
  interpreter (CPython 3.11, Unicode 14.0): \<open>\s\<close> matches the 29 code points that
  \<open>str.isspace\<close> accepts, \<open>\d\<close> the 660 decimal digits, which come in 66 runs of ten
  from a zero to a nine. \<open>digit_zeros\<close> lists the zeros.
\<close>

definition space_codepoints :: "nat list" where
  "space_codepoints =
     [9, 10, 11, 12, 13, 28, 29, 30, 31, 32, 133, 160, 5760, 8192, 8193, 8194, 8195,
      8196, 8197, 8198, 8199, 8200, 8201, 8202, 8232, 8233, 8239, 8287, 12288]"

definition is_space :: "nat \<Rightarrow> bool" where
  "is_space c = (c \<in> set space_codepoints)"

definition digit_zeros :: "nat list" where
  "digit_zeros =
     [48, 1632, 1776, 1984, 2406, 2534, 2662, 2790, 2918, 3046, 3174, 3302, 3430, 3558,
      3664, 3792, 3872, 4160, 4240, 6112, 6160, 6470, 6608, 6784, 6800, 6992, 7088,
      7232, 7248, 42528, 43216, 43264, 43472, 43504, 43600, 44016, 65296, 66720, 68912,
      69734, 69872, 69942, 70096, 70384, 70736, 70864, 71248, 71360, 71472, 71904,
      72016, 72784, 73040, 73120, 92768, 92864, 93008, 120782, 120792, 120802, 120812,
      120822, 123200, 123632, 125264, 130032]"

definition digit_zero :: "nat \<Rightarrow> nat option" where
  "digit_zero c = find (\<lambda>z. z \<le> c \<and> c < z + 10) digit_zeros"

definition is_digit :: "nat \<Rightarrow> bool" where
  "is_digit c = (digit_zero c \<noteq> None)"

definition digit_value :: "nat \<Rightarrow> int" where
  "digit_value c = (case digit_zero c of Some z \<Rightarrow> int (c - z) | None \<Rightarrow> 0)"

text \<open>
  The pattern language the source's regular expression is written in: a literal
  character, \<open>\S\<close> and \<open>\d\<close>; each either once or under \<open>+\<close>; and the parentheses of a
  capturing group.
\<close>

datatype cls = Lit nat | NonSpace | Digit

datatype item = One cls | Plus cls | Open | Close

fun accepts :: "cls \<Rightarrow> nat \<Rightarrow> bool" where
  "accepts (Lit d) c = (c = d)"
| "accepts NonSpace c = (\<not> is_space c)"
| "accepts Digit c = is_digit c"

text \<open>
  \<open>re.match\<close>: a backtracking matcher anchored at the start of the string and not at its
  end. \<open>x+\<close> is greedy: after one \<open>x\<close> it first tries to go on repeating, and only when
  the rest of the pattern then fails does it stop repeating and hand over to the rest.
  \<open>opened\<close> holds the text matched so far by each group that is open, \<open>groups\<close> the
  text of the groups already closed, in the order of closing. The result is
  \<open>match.groups()\<close>, or \<open>None\<close> when there is no match.
\<close>

fun rmatch :: "item list \<Rightarrow> pystr \<Rightarrow> pystr list \<Rightarrow> pystr list \<Rightarrow> pystr list option" where
  "rmatch [] s opened groups = Some groups"
| "rmatch (Open # p) s opened groups = rmatch p s ([] # opened) groups"
| "rmatch (Close # p) s opened groups =
     (case opened of
        [] \<Rightarrow> None
      | g # gs \<Rightarrow> rmatch p s gs (groups @ [g]))"
| "rmatch (One a # p) s opened groups =
     (case s of
        [] \<Rightarrow> None
      | c # cs \<Rightarrow>
          if accepts a c then rmatch p cs (map (\<lambda>g. g @ [c]) opened) groups else None)"
| "rmatch (Plus a # p) s opened groups =
     (case s of
        [] \<Rightarrow> None
      | c # cs \<Rightarrow>
          if accepts a c
          then (case rmatch (Plus a # p) cs (map (\<lambda>g. g @ [c]) opened) groups of
                  Some r \<Rightarrow> Some r
                | None \<Rightarrow> rmatch p cs (map (\<lambda>g. g @ [c]) opened) groups)
          else None)"

definition re_match :: "item list \<Rightarrow> pystr \<Rightarrow> pystr list option" where
  "re_match p s = rmatch p s [] []"

definition lits :: "pystr \<Rightarrow> item list" where
  "lits w = map (\<lambda>c. One (Lit c)) w"

text \<open>
  \<^verbatim>\<open>r"(\S+ \S+) (\S+) Request processed in (\d+)ms"\<close>
  (32 is the space, 109 and 115 are \<open>m\<close> and \<open>s\<close>.)
\<close>

definition pattern :: "item list" where
  "pattern =
     [Open, Plus NonSpace, One (Lit 32), Plus NonSpace, Close, One (Lit 32),
      Open, Plus NonSpace, Close]
     @ lits (cps '' Request processed in '')
     @ [Open, Plus Digit, Close, One (Lit 109), One (Lit 115)]"

text \<open>
  \<open>int(s)\<close> on a string, in base ten. White space at both ends is dropped (the code
  points of \<open>\s\<close> other than 28 to 31); a sign \<open>+\<close> (43) or \<open>-\<close> (45) may come first;
  then come decimal digits of any script, where single underscores (95) may stand
  between two digits; anything else raises ValueError. So does a string of more than
  4300 digits: CPython refuses to convert it (\<open>sys.int_info.default_max_str_digits\<close>),
  leading zeros counted, sign and underscores not.
\<close>

definition int_space_codepoints :: "nat list" where
  "int_space_codepoints =
     [9, 10, 11, 12, 13, 32, 133, 160, 5760, 8192, 8193, 8194, 8195, 8196, 8197, 8198,
      8199, 8200, 8201, 8202, 8232, 8233, 8239, 8287, 12288]"

definition int_max_str_digits :: nat where
  "int_max_str_digits = 4300"

fun digit_run :: "pystr \<Rightarrow> bool" where
  "digit_run [] = False"
| "digit_run [c] = is_digit c"
| "digit_run (c # d # r) = (is_digit c \<and> (if d = 95 then digit_run r else digit_run (d # r)))"

definition decimal_value :: "pystr \<Rightarrow> int" where
  "decimal_value ds = foldl (\<lambda>n c. 10 * n + digit_value c) 0 ds"

definition strip :: "pystr \<Rightarrow> pystr" where
  "strip s =
     rev (dropWhile (\<lambda>c. c \<in> set int_space_codepoints)
            (rev (dropWhile (\<lambda>c. c \<in> set int_space_codepoints) s)))"

definition int_of_str :: "pystr \<Rightarrow> exn + int" where
  "int_of_str s =
     (let t = strip s;
          negative = (t \<noteq> [] \<and> hd t = 45);
          u = (if t \<noteq> [] \<and> (hd t = 43 \<or> hd t = 45) then tl t else t);
          ds = filter (\<lambda>c. c \<noteq> 95) u
      in if \<not> digit_run u then Inl ValueError
         else if length ds > int_max_str_digits then Inl ValueError
         else Inr (if negative then - decimal_value ds else decimal_value ds))"

text \<open>
  \<^verbatim>\<open>
  for line in lines:
      match = re.match(r"(\S+ \S+) (\S+) Request processed in (\d+)ms", line)
      if match:
          timestamp, log_level, response_time = match.groups()
          total_requests += 1
          total_time += int(response_time)
      else:
          malformed_lines += 1
  \<close>
  The state of the loop is the triple of \<open>total_time\<close>, \<open>total_requests\<close> and
  \<open>malformed_lines\<close>. Unpacking \<open>match.groups()\<close> into three names raises ValueError
  unless there are exactly three groups. \<open>total_requests\<close> is incremented before
  \<open>int\<close> is called, but an exception leaves the loop and the function, and the counters
  with them.
\<close>

type_synonym counters = "int \<times> int \<times> int"

fun process_line :: "pystr \<Rightarrow> counters \<Rightarrow> exn + counters" where
  "process_line line (total_time, total_requests, malformed) =
     (case re_match pattern line of
        Some [timestamp, log_level, response_time] \<Rightarrow>
          (case int_of_str response_time of
             Inl e \<Rightarrow> Inl e
           | Inr n \<Rightarrow> Inr (total_time + n, total_requests + 1, malformed))
      | Some _ \<Rightarrow> Inl ValueError
      | None \<Rightarrow> Inr (total_time, total_requests, malformed + 1))"

fun process_lines :: "pystr list \<Rightarrow> counters \<Rightarrow> exn + counters" where
  "process_lines [] counts = Inr counts"
| "process_lines (line # lines) counts =
     (case process_line line counts of
        Inl e \<Rightarrow> Inl e
      | Inr counts' \<Rightarrow> process_lines lines counts')"

text \<open>
  \<open>lines\<close> is what \<open>f.readlines(size)\<close> returned after \<open>f.seek(start)\<close>; reading the
  file is left to the caller.
  \<^verbatim>\<open>
  avg_response_time = total_time / total_requests if total_requests > 0 else 0
  \<close>
\<close>

definition process_chunk :: "pystr list \<Rightarrow> exn + metrics" where
  "process_chunk lines =
     (case process_lines lines (0, 0, 0) of
        Inl e \<Rightarrow> Inl e
      | Inr (total_time, total_requests, malformed) \<Rightarrow>
          Inr \<lparr>avg_response_time =
                 (if total_requests > 0
                  then real_of_int total_time / real_of_int total_requests else 0),
               requests_per_second = total_requests,
               error_rate = 0,
               malformed_lines = malformed\<rparr>)"

text \<open>
  The shape of a matched line, spelled out from the pattern: three tokens of non-space
  characters, one space after each of the first two, then the fixed text, a run of
  digits and \<open>ms\<close>; whatever follows is not looked at.
\<close>

definition token :: "pystr \<Rightarrow> bool" where
  "token t = (t \<noteq> [] \<and> (\<forall>c \<in> set t. \<not> is_space c))"

definition digits :: "pystr \<Rightarrow> bool" where
  "digits ds = (ds \<noteq> [] \<and> (\<forall>c \<in> set ds. is_digit c))"

definition request_line :: "pystr \<Rightarrow> pystr \<Rightarrow> bool" where
  "request_line line ds =
     (\<exists>t1 t2 t3 rest.
        line = t1 @ [32] @ t2 @ [32] @ t3 @ cps '' Request processed in '' @ ds @ cps ''ms'' @ rest
        \<and> token t1 \<and> token t2 \<and> token t3 \<and> digits ds)"

text \<open>
  The shape as the specification words it: two tokens before the fixed text, and the
  line being exactly that.
\<close>

definition spec_request_line :: "pystr \<Rightarrow> pystr \<Rightarrow> bool" where
  "spec_request_line line ds =
     (\<exists>t1 t2.
        line = t1 @ [32] @ t2 @ cps '' Request processed in '' @ ds @ cps ''ms''
        \<and> token t1 \<and> token t2 \<and> digits ds)"

text \<open>
  A proof device: the rest \<open>p\<close> of a pattern rejects a class when it cannot match a
  string that starts with a character of the class. After \<open>x+\<close> such a rest leaves the
  matcher no choice but the longest run.
\<close>

definition rejects :: "cls \<Rightarrow> item list \<Rightarrow> bool" where
  "rejects a p = (\<forall>c s opened groups. accepts a c \<longrightarrow> rmatch p (c # s) opened groups = None)"

section \<open>Properties of the chunk planner\<close>

lemma split_loop_run:
  assumes "0 < chunk_size"
  shows "split_loop file_size chunk_size start chunks =
         Some (chunks @ map (\<lambda>k. (start + int k * chunk_size, chunk_size))
                 [0..<chunk_count (file_size - start) chunk_size])"
proof (induction "nat (file_size - start)" arbitrary: start chunks rule: less_induct)
  case less
  show ?case
  proof (cases "start < file_size")
    case False
    then have "chunk_count (file_size - start) chunk_size = 0"
      using assms pos_imp_zdiv_pos_iff[of chunk_size "file_size - start + chunk_size - 1"]
      unfolding chunk_count_def by simp
    with False show ?thesis by (subst split_loop.simps) simp
  next
    case True
    let ?n = "chunk_count (file_size - start - chunk_size) chunk_size"
    have cnt: "chunk_count (file_size - start) chunk_size = Suc ?n"
    proof -
      have "(file_size - start + chunk_size - 1) div chunk_size
            = (file_size - start - chunk_size + chunk_size - 1) div chunk_size + 1"
        using assms div_add_self2[of chunk_size "file_size - start - 1"] by (simp add: algebra_simps)
      moreover have "0 \<le> (file_size - start - chunk_size + chunk_size - 1) div chunk_size"
        using True assms by (simp add: pos_imp_zdiv_nonneg_iff)
      ultimately show ?thesis unfolding chunk_count_def by (simp add: nat_add_distrib)
    qed
    have dec: "nat (file_size - (start + chunk_size)) < nat (file_size - start)"
      using True assms by linarith
    have "split_loop file_size chunk_size start chunks
          = split_loop file_size chunk_size (start + chunk_size) (chunks @ [(start, chunk_size)])"
      using True by (subst split_loop.simps) simp
    also have "\<dots> = Some ((chunks @ [(start, chunk_size)]) @
                 map (\<lambda>k. (start + chunk_size + int k * chunk_size, chunk_size)) [0..<?n])"
      using less[OF dec] by (simp add: algebra_simps)
    also have "(chunks @ [(start, chunk_size)]) @
                 map (\<lambda>k. (start + chunk_size + int k * chunk_size, chunk_size)) [0..<?n]
               = chunks @ map (\<lambda>k. (start + int k * chunk_size, chunk_size)) [0..<Suc ?n]"
      by (simp add: map_upt_Suc algebra_simps del: upt_Suc)
    finally show ?thesis using cnt by simp
  qed
qed

lemma split_loop_diverges:
  assumes "chunk_size \<le> 0" and "start < file_size"
  shows "split_loop file_size chunk_size start chunks = None"
proof -
  have "\<not> (chunk_size \<le> 0 \<and> start < file_size)"
    if "split_loop file_size chunk_size start chunks = Some r" for r
  proof (rule split_loop.raw_induct[where P = "\<lambda>fs cs st ch y. \<not> (cs \<le> 0 \<and> st < fs)", OF _ that])
    fix f fs cs st ch y
    assume ih: "\<And>fs cs st ch y. f fs cs st ch = Some y \<Longrightarrow> \<not> (cs \<le> 0 \<and> st < fs)"
      and step: "(if st < fs then f fs cs (st + cs) (ch @ [(st, cs)]) else Some ch) = Some (y :: chunk list)"
    show "\<not> (cs \<le> 0 \<and> st < fs)"
    proof
      assume a: "cs \<le> 0 \<and> st < fs"
      with step have "f fs cs (st + cs) (ch @ [(st, cs)]) = Some y" by simp
      from ih[OF this] a show False by simp
    qed
  qed
  with assms show ?thesis by (cases "split_loop file_size chunk_size start chunks") auto
qed

lemma split_file_closed:
  "0 < chunk_size \<Longrightarrow>
   split_file filepath file_size chunk_size =
     Some (map (\<lambda>k. (int k * chunk_size, chunk_size)) [0..<chunk_count file_size chunk_size])"
  unfolding split_file_def using split_loop_run[of chunk_size file_size 0 "[]"] by simp

lemma chunk_count_cover:
  assumes "0 < chunk_size"
  shows "file_size \<le> int (chunk_count file_size chunk_size) * chunk_size"
proof (cases "0 < file_size")
  case False
  then show ?thesis using assms by (simp add: order_trans[of file_size 0])
next
  case True
  let ?x = "file_size + chunk_size - 1"
  have nn: "0 \<le> ?x div chunk_size"
    using True assms by (simp add: pos_imp_zdiv_nonneg_iff)
  have "?x = ?x div chunk_size * chunk_size + ?x mod chunk_size" by simp
  moreover have "?x mod chunk_size \<le> chunk_size - 1"
    using assms pos_mod_bound[of chunk_size ?x] by linarith
  ultimately have "file_size \<le> ?x div chunk_size * chunk_size" by linarith
  with nn show ?thesis unfolding chunk_count_def by simp
qed

lemma chunk_count_last:
  assumes "0 < chunk_size" and "k < chunk_count file_size chunk_size"
  shows "int k * chunk_size < file_size"
proof -
  let ?x = "file_size + chunk_size - 1"
  from assms(2) have "int k < ?x div chunk_size"
    unfolding chunk_count_def by linarith
  then have "int k + 1 \<le> ?x div chunk_size" by simp
  then have "(int k + 1) * chunk_size \<le> ?x div chunk_size * chunk_size"
    using assms(1) by (simp add: mult_right_mono)
  also have "\<dots> \<le> ?x"
  proof -
    have "?x = ?x div chunk_size * chunk_size + ?x mod chunk_size" by simp
    moreover have "0 \<le> ?x mod chunk_size" using assms(1) by simp
    ultimately show ?thesis by linarith
  qed
  finally show ?thesis by (simp add: algebra_simps)
qed

lemma plan_unique_cover:
  assumes cs: "0 < chunk_size" and p: "0 \<le> p" "p < int n * chunk_size"
  shows "\<exists>!i. i < n \<and> int i * chunk_size \<le> p \<and> p < int i * chunk_size + chunk_size"
proof (rule ex1I[of _ "nat (p div chunk_size)"])
  let ?i = "nat (p div chunk_size)"
  have nn: "0 \<le> p div chunk_size" using cs p(1) by (simp add: pos_imp_zdiv_nonneg_iff)
  have dm: "p = p div chunk_size * chunk_size + p mod chunk_size" by simp
  have m0: "0 \<le> p mod chunk_size" and m1: "p mod chunk_size < chunk_size" using cs by simp_all
  have "p div chunk_size < int n"
  proof (rule ccontr)
    assume "\<not> p div chunk_size < int n"
    then have "int n * chunk_size \<le> p div chunk_size * chunk_size"
      using cs by (simp add: mult_right_mono)
    with dm m0 p(2) show False by linarith
  qed
  then have "?i < n" using nn by linarith
  moreover have i: "int ?i = p div chunk_size" using nn by simp
  moreover have "int ?i * chunk_size \<le> p" unfolding i using dm m0 by linarith
  moreover have "p < int ?i * chunk_size + chunk_size" unfolding i using dm m1 by linarith
  ultimately show "?i < n \<and> int ?i * chunk_size \<le> p \<and> p < int ?i * chunk_size + chunk_size"
    by simp
next
  fix i
  assume a: "i < n \<and> int i * chunk_size \<le> p \<and> p < int i * chunk_size + chunk_size"
  then have "p div chunk_size = int i"
    by (intro int_div_pos_eq[where r = "p - int i * chunk_size"]) (simp_all add: algebra_simps)
  then show "i = nat (p div chunk_size)" by simp
qed

text \<open>
  Claim C5. For \<open>file_size \<ge> 0\<close> and \<open>chunk_size > 0\<close> the planner returns a plan;
  it is empty exactly for an empty file; its first chunk starts at offset 0; each next
  offset is the previous one plus \<open>chunk_size\<close>; every chunk has the declared length
  \<open>chunk_size\<close> and starts inside the file; every byte position of \<open>[0, file_size)\<close>
  lies in the range of exactly one chunk (no gap, no overlap); and the declared lengths
  add up to at least \<open>file_size\<close>.
\<close>

theorem split_file_plan:
  assumes "0 \<le> file_size" and "0 < chunk_size"
  shows "\<exists>plan. split_file filepath file_size chunk_size = Some plan
           \<and> (plan = [] \<longleftrightarrow> file_size = 0)
           \<and> (plan \<noteq> [] \<longrightarrow> fst (hd plan) = 0)
           \<and> (\<forall>i. Suc i < length plan \<longrightarrow> fst (plan ! Suc i) = fst (plan ! i) + chunk_size)
           \<and> (\<forall>i < length plan. snd (plan ! i) = chunk_size \<and> fst (plan ! i) < file_size)
           \<and> (\<forall>p. 0 \<le> p \<and> p < file_size \<longrightarrow>
                  (\<exists>!i. i < length plan \<and> fst (plan ! i) \<le> p \<and> p < fst (plan ! i) + snd (plan ! i)))
           \<and> file_size \<le> sum_list (map snd plan)"
proof -
  let ?n = "chunk_count file_size chunk_size"
  let ?plan = "map (\<lambda>k. (int k * chunk_size, chunk_size)) [0..<?n]"
  have run: "split_file filepath file_size chunk_size = Some ?plan"
    using assms(2) by (rule split_file_closed)
  have cover: "file_size \<le> int ?n * chunk_size"
    using assms(2) by (rule chunk_count_cover)
  have inside: "int k * chunk_size < file_size" if "k < ?n" for k
    using assms(2) that by (rule chunk_count_last)
  have c1: "?plan = [] \<longleftrightarrow> file_size = 0"
  proof
    assume "?plan = []"
    then have "?n = 0" by simp
    with cover assms(1) show "file_size = 0" by simp
  next
    assume "file_size = 0"
    then have "?n = 0" using inside[of 0] by (cases ?n) auto
    then show "?plan = []" by simp
  qed
  have c2: "?plan \<noteq> [] \<longrightarrow> fst (hd ?plan) = 0"
    by (simp add: hd_map upt_conv_Cons)
  have c3: "\<forall>i. Suc i < length ?plan \<longrightarrow> fst (?plan ! Suc i) = fst (?plan ! i) + chunk_size"
    by (simp add: algebra_simps)
  have c4: "\<forall>i < length ?plan. snd (?plan ! i) = chunk_size \<and> fst (?plan ! i) < file_size"
    using inside by simp
  have c5: "\<forall>p. 0 \<le> p \<and> p < file_size \<longrightarrow>
      (\<exists>!i. i < length ?plan \<and> fst (?plan ! i) \<le> p \<and> p < fst (?plan ! i) + snd (?plan ! i))"
  proof (intro allI impI)
    fix p assume p: "0 \<le> p \<and> p < file_size"
    then have "p < int ?n * chunk_size" using cover by linarith
    from plan_unique_cover[OF assms(2) _ this] p
    have ex: "\<exists>!i. i < ?n \<and> int i * chunk_size \<le> p \<and> p < int i * chunk_size + chunk_size"
      by simp
    have eq: "(i < length ?plan \<and> fst (?plan ! i) \<le> p \<and> p < fst (?plan ! i) + snd (?plan ! i))
          \<longleftrightarrow> (i < ?n \<and> int i * chunk_size \<le> p \<and> p < int i * chunk_size + chunk_size)" for i
      by auto
    show "\<exists>!i. i < length ?plan \<and> fst (?plan ! i) \<le> p \<and> p < fst (?plan ! i) + snd (?plan ! i)"
      using ex unfolding eq .
  qed
  have "sum_list (map snd ?plan) = int ?n * chunk_size"
    by (simp add: comp_def sum_list_triv)
  with cover have c6: "file_size \<le> sum_list (map snd ?plan)" by simp
  show ?thesis
    using run c1 c2 c3 c4 c5 c6 by blast
qed

theorem split_file_plan_witness:
  "\<exists>plan. split_file ''access.log'' 10 4 = Some plan
           \<and> plan \<noteq> []
           \<and> fst (hd plan) = 0
           \<and> fst (plan ! 1) = fst (plan ! 0) + 4
           \<and> fst (plan ! 2) = fst (plan ! 1) + 4
           \<and> 10 \<le> sum_list (map snd plan)"
proof -
  from split_file_plan[where file_size = 10 and chunk_size = 4 and filepath = "''access.log''"]
  obtain plan where p: "split_file ''access.log'' 10 4 = Some plan"
    and ne: "plan \<noteq> []" and hd0: "fst (hd plan) = 0"
    and step: "\<forall>i. Suc i < length plan \<longrightarrow> fst (plan ! Suc i) = fst (plan ! i) + 4"
    and total: "10 \<le> sum_list (map snd plan)"
    by auto
  have "split_file ''access.log'' 10 4 = Some [(0, 4), (4, 4), (8, 4)]"
    by (simp add: split_file_def split_loop.simps)
  with p have len: "length plan = 3" by auto
  from step len have "fst (plan ! Suc 0) = fst (plan ! 0) + 4"
    and "fst (plan ! Suc (Suc 0)) = fst (plan ! Suc 0) + 4" by simp_all
  then have "fst (plan ! 1) = fst (plan ! 0) + 4" and "fst (plan ! 2) = fst (plan ! 1) + 4"
    by (simp_all add: numeral_2_eq_2)
  with p ne hd0 total show ?thesis by blast
qed

text \<open>
  Claim C10. For \<open>file_size \<ge> 0\<close> and \<open>chunk_size \<ge> 1\<close> the loop of the planner
  returns, the distance \<open>file_size - start\<close> getting smaller with every iteration; for
  \<open>chunk_size \<le> 0\<close> and \<open>file_size > 0\<close> it never returns.
\<close>

theorem split_file_terminates:
  "(0 \<le> file_size \<and> 1 \<le> chunk_size \<longrightarrow>
      (\<exists>plan. split_file filepath file_size chunk_size = Some plan)
      \<and> (\<forall>start. start < file_size \<longrightarrow>
             nat (file_size - (start + chunk_size)) < nat (file_size - start)))
   \<and> (chunk_size \<le> 0 \<and> 0 < file_size \<longrightarrow> split_file filepath file_size chunk_size = None)"
proof (intro conjI impI allI)
  assume "0 \<le> file_size \<and> 1 \<le> chunk_size"
  then have "0 < chunk_size" by simp
  from split_file_closed[OF this, of filepath file_size]
  show "\<exists>plan. split_file filepath file_size chunk_size = Some plan" by simp
next
  fix start
  assume "0 \<le> file_size \<and> 1 \<le> chunk_size" and "start < file_size"
  then show "nat (file_size - (start + chunk_size)) < nat (file_size - start)" by linarith
next
  assume "chunk_size \<le> 0 \<and> 0 < file_size"
  then show "split_file filepath file_size chunk_size = None"
    unfolding split_file_def by (simp add: split_loop_diverges)
qed

theorem split_file_terminates_witness:
  "(\<exists>plan. split_file ''access.log'' 10 4 = Some plan)
   \<and> nat (10 - (8 + 4)) < nat (10 - (8::int))
   \<and> split_file ''access.log'' 10 0 = None
   \<and> split_file ''access.log'' 10 (- 4) = None"
  using split_file_terminates[where file_size = 10 and chunk_size = 4 and filepath = "''access.log''"]
        split_file_terminates[where file_size = 10 and chunk_size = 0 and filepath = "''access.log''"]
        split_file_terminates[where file_size = 10 and chunk_size = "- 4" and filepath = "''access.log''"]
  by simp

text \<open>
  Claim C3, as amended. The planner checks nothing and raises nothing: with
  \<open>chunk_size \<le> 0\<close> it returns the empty plan when \<open>file_size \<le> 0\<close>, and does not
  return when \<open>file_size > 0\<close>.
\<close>

theorem split_file_no_validation:
  "chunk_size \<le> 0 \<Longrightarrow>
   split_file filepath file_size chunk_size = (if 0 < file_size then None else Some [])"
  unfolding split_file_def
  by (simp add: split_loop_diverges) (simp add: split_loop.simps)

theorem split_file_no_validation_witness:
  "split_file ''access.log'' 10 0 = None \<and> split_file ''access.log'' 0 (- 1) = Some []"
  using split_file_no_validation[where file_size = 10 and chunk_size = 0 and filepath = "''access.log''"]
        split_file_no_validation[where file_size = 0 and chunk_size = "- 1" and filepath = "''access.log''"]
  by simp

text \<open>
  Claim C3 as stated fails: called with \<open>file_size = 0\<close> and \<open>chunk_size = 0\<close> the
  planner returns the empty plan, where the claim has it fail with InvalidArgument.
\<close>

theorem split_file_invalid_argument_counterexample:
  "split_file ''access.log'' 0 0 = Some []"
  by (simp add: split_file_def split_loop.simps)

section \<open>Properties of the aggregation\<close>

lemma aggregate_loop_sums:
  "aggregate_loop results total_requests total_time total_malformed =
     (total_requests + (\<Sum>r\<leftarrow>results. requests_per_second r),
      total_time + (\<Sum>r\<leftarrow>results. avg_response_time r * real_of_int (requests_per_second r)),
      total_malformed + (\<Sum>r\<leftarrow>results. malformed_lines r))"
  by (induction results arbitrary: total_requests total_time total_malformed)
     (simp_all add: algebra_simps)

text \<open>
  Claim C6. For every list of results the aggregate's \<open>requests_per_second\<close> is the sum
  of theirs, its \<open>malformed_lines\<close> the sum of theirs, and its \<open>avg_response_time\<close>
  the sum of \<open>avg_response_time * requests_per_second\<close> divided by the total of the
  requests when that total is positive, and 0 otherwise; the aggregate of no results has
  all fields zero.
\<close>

theorem aggregate_results_sums:
  "aggregate_results results =
     \<lparr>avg_response_time =
        (if 0 < (\<Sum>r\<leftarrow>results. requests_per_second r)
         then (\<Sum>r\<leftarrow>results. avg_response_time r * real_of_int (requests_per_second r))
              / real_of_int (\<Sum>r\<leftarrow>results. requests_per_second r)
         else 0),
      requests_per_second = (\<Sum>r\<leftarrow>results. requests_per_second r),
      error_rate = 0,
      malformed_lines = (\<Sum>r\<leftarrow>results. malformed_lines r)\<rparr>
   \<and> aggregate_results [] =
     \<lparr>avg_response_time = 0, requests_per_second = 0, error_rate = 0, malformed_lines = 0\<rparr>"
  by (simp add: aggregate_results_def aggregate_loop_sums)

theorem aggregate_results_sums_witness:
  "aggregate_results
     [\<lparr>avg_response_time = 100, requests_per_second = 5, error_rate = 0, malformed_lines = 1\<rparr>,
      \<lparr>avg_response_time = 200, requests_per_second = 15, error_rate = 0, malformed_lines = 2\<rparr>]
   = \<lparr>avg_response_time = 175, requests_per_second = 20, error_rate = 0, malformed_lines = 3\<rparr>"
  using aggregate_results_sums[of
     "[\<lparr>avg_response_time = 100, requests_per_second = 5, error_rate = 0, malformed_lines = 1\<rparr>,
      \<lparr>avg_response_time = 200, requests_per_second = 15, error_rate = 0, malformed_lines = 2\<rparr>]"]
  by simp

lemma sum_requests_filter:
  "(\<Sum>r\<leftarrow>filter (\<lambda>r. requests_per_second r \<noteq> 0) results. requests_per_second r)
   = (\<Sum>r\<leftarrow>results. requests_per_second r)"
  by (induction results) simp_all

lemma sum_time_filter:
  "(\<Sum>r\<leftarrow>filter (\<lambda>r. requests_per_second r \<noteq> 0) results.
       avg_response_time r * real_of_int (requests_per_second r))
   = (\<Sum>r\<leftarrow>results. avg_response_time r * real_of_int (requests_per_second r))"
  by (induction results) simp_all

text \<open>
  Claim C7. Leaving out every result whose \<open>requests_per_second\<close> is 0 changes neither
  the \<open>avg_response_time\<close> nor the \<open>requests_per_second\<close> of the aggregate.
\<close>

theorem aggregate_results_zero_chunks:
  "avg_response_time (aggregate_results (filter (\<lambda>r. requests_per_second r \<noteq> 0) results))
     = avg_response_time (aggregate_results results)
   \<and> requests_per_second (aggregate_results (filter (\<lambda>r. requests_per_second r \<noteq> 0) results))
     = requests_per_second (aggregate_results results)"
  by (simp add: aggregate_results_def aggregate_loop_sums sum_requests_filter sum_time_filter)

theorem aggregate_results_zero_chunks_witness:
  "avg_response_time (aggregate_results
     [\<lparr>avg_response_time = 100, requests_per_second = 5, error_rate = 0, malformed_lines = 1\<rparr>])
   = avg_response_time (aggregate_results
     [\<lparr>avg_response_time = 100, requests_per_second = 5, error_rate = 0, malformed_lines = 1\<rparr>,
      \<lparr>avg_response_time = 700, requests_per_second = 0, error_rate = 0, malformed_lines = 4\<rparr>])"
  using aggregate_results_zero_chunks[of
     "[\<lparr>avg_response_time = 100, requests_per_second = 5, error_rate = 0, malformed_lines = 1\<rparr>,
      \<lparr>avg_response_time = 700, requests_per_second = 0, error_rate = 0, malformed_lines = 4\<rparr>]"]
  by simp

section \<open>Properties of the registry\<close>

lemma registration_distinct:
  "distinct (map fst workers) \<Longrightarrow>
   distinct (map fst (handle_worker_registration workers worker_id url))"
  by (simp add: handle_worker_registration_def distinct_update)

lemma registration_order:
  "map fst (handle_worker_registration workers worker_id url) =
     (if worker_id \<in> set (map fst workers) then map fst workers else map fst workers @ [worker_id])"
  unfolding handle_worker_registration_def
  by (induction workers) auto

lemma map_entry_keys: "map fst (AList.map_entry k f al) = map fst al"
  by (induction al) auto

lemma map_entry_nth:
  "distinct (map fst al) \<Longrightarrow> i < length al \<Longrightarrow>
   AList.map_entry k f al ! i = (if fst (al ! i) = k then (k, f (snd (al ! i))) else al ! i)"
proof (induction al arbitrary: i)
  case Nil
  then show ?case by simp
next
  case (Cons p ps)
  show ?case
  proof (cases i)
    case 0
    then show ?thesis by auto
  next
    case (Suc j)
    with Cons.prems have j: "j < length ps" and d: "distinct (map fst ps)"
      and notin: "fst p \<notin> fst ` set ps" by auto
    from j have "ps ! j \<in> set ps" by simp
    then have "fst (ps ! j) \<in> fst ` set ps" by (rule imageI)
    with notin have "fst (ps ! j) \<noteq> fst p" by metis
    with Suc Cons.IH[OF d j] show ?thesis by auto
  qed
qed

lemma map_entry_unknown: "k \<notin> set (map fst al) \<Longrightarrow> AList.map_entry k f al = al"
  by (induction al) auto

text \<open>
  Claim C9. A heartbeat for a known id leaves the keys and their order as they are, sets
  the status of that id's entry to \<open>active\<close> and changes no other entry and no other
  field; a heartbeat for an unknown id leaves the registry as it is, and so adds no
  entry. (The keys of the registry are distinct, as those of a dict are.)
\<close>

theorem heartbeat_frame:
  "(distinct (map fst workers) \<and> worker_id \<in> set (map fst workers) \<longrightarrow>
      map fst (handle_worker_health_check workers worker_id) = map fst workers
      \<and> (\<forall>i < length workers.
            handle_worker_health_check workers worker_id ! i =
              (if fst (workers ! i) = worker_id
               then (worker_id, (snd (workers ! i))\<lparr>status := ''active''\<rparr>)
               else workers ! i)))
   \<and> (worker_id \<notin> set (map fst workers) \<longrightarrow>
        handle_worker_health_check workers worker_id = workers)"
  by (simp add: handle_worker_health_check_def map_entry_keys map_entry_nth)

theorem heartbeat_frame_witness:
  "handle_worker_health_check
     [(''w1'', \<lparr>worker_url = ''http://a'', status = ''stale''\<rparr>),
      (''w2'', \<lparr>worker_url = ''http://b'', status = ''stale''\<rparr>)] ''w2''
   = [(''w1'', \<lparr>worker_url = ''http://a'', status = ''stale''\<rparr>),
      (''w2'', \<lparr>worker_url = ''http://b'', status = ''active''\<rparr>)]
   \<and> handle_worker_health_check
     [(''w1'', \<lparr>worker_url = ''http://a'', status = ''stale''\<rparr>),
      (''w2'', \<lparr>worker_url = ''http://b'', status = ''stale''\<rparr>)] ''w3''
   = [(''w1'', \<lparr>worker_url = ''http://a'', status = ''stale''\<rparr>),
      (''w2'', \<lparr>worker_url = ''http://b'', status = ''stale''\<rparr>)]"
proof -
  let ?ws = "[(''w1'', \<lparr>worker_url = ''http://a'', status = ''stale''\<rparr>),
              (''w2'', \<lparr>worker_url = ''http://b'', status = ''stale''\<rparr>)]"
  from heartbeat_frame[of ?ws "''w2''"]
  have keys: "map fst (handle_worker_health_check ?ws ''w2'') = map fst ?ws"
    and nth: "\<forall>i < length ?ws. handle_worker_health_check ?ws ''w2'' ! i =
              (if fst (?ws ! i) = ''w2''
               then (''w2'', (snd (?ws ! i))\<lparr>status := ''active''\<rparr>)
               else ?ws ! i)"
    by simp_all
  from keys have len: "length (handle_worker_health_check ?ws ''w2'') = 2"
    by (metis length_map length_Cons list.size(3) One_nat_def Suc_1)
  from nth have n0: "handle_worker_health_check ?ws ''w2'' ! 0 = ?ws ! 0"
    and n1: "handle_worker_health_check ?ws ''w2'' ! 1
             = (''w2'', \<lparr>worker_url = ''http://b'', status = ''active''\<rparr>)"
    by simp_all
  have known: "handle_worker_health_check ?ws ''w2''
     = [(''w1'', \<lparr>worker_url = ''http://a'', status = ''stale''\<rparr>),
        (''w2'', \<lparr>worker_url = ''http://b'', status = ''active''\<rparr>)]"
    using len n0 n1 by (intro nth_equalityI) (auto simp: less_Suc_eq numeral_2_eq_2)
  have unknown: "handle_worker_health_check ?ws ''w3'' = ?ws"
    using heartbeat_frame[of ?ws "''w3''"] by simp
  from known unknown show ?thesis by simp
qed

lemma health_check_distinct:
  "distinct (map fst workers) \<Longrightarrow>
   distinct (map fst (handle_worker_health_check workers worker_id))"
  by (simp add: handle_worker_health_check_def map_entry_keys)

section \<open>Properties of the dispatch loop and of the handler\<close>

lemma map_of_nth_key:
  "distinct (map fst al) \<Longrightarrow> j < length al \<Longrightarrow> map_of al (map fst al ! j) = Some (snd (al ! j))"
  by (metis map_of_eq_Some_iff nth_map nth_mem prod.collapse)

text \<open>
  The loop as it is written, taken by itself: as long as the registry is not empty, the
  call of iteration \<open>n\<close> goes to the key at position \<open>n mod N\<close> of the registry that
  iteration finds, \<open>N\<close> being its size then, and carries the \<open>n\<close>-th chunk.
\<close>

lemma dispatch_loop_calls:
  assumes ne: "\<And>n. workers n \<noteq> []" and dist: "\<And>n. distinct (map fst (workers n))"
  shows "dispatch_loop post workers fp i chunks results calls = (r, calls') \<Longrightarrow>
         \<exists>k \<le> length chunks.
            calls' = calls @ map (\<lambda>j.
                (fst (workers (i + j) ! ((i + j) mod length (workers (i + j)))),
                 worker_url (snd (workers (i + j) ! ((i + j) mod length (workers (i + j)))))
                   @ ''/process'',
                 \<lparr>body_filepath = fp, body_start = fst (chunks ! j), body_size = snd (chunks ! j)\<rparr>))
              [0..<k]
            \<and> (case r of Inl e \<Rightarrow> True | Inr rs \<Rightarrow> k = length chunks \<and> length rs = length results + k)"
proof (induction chunks arbitrary: i results calls)
  case Nil
  then show ?case by auto
next
  case (Cons chunk chunks)
  let ?ws = "workers i"
  let ?j = "i mod length ?ws"
  have n: "0 < length ?ws" using ne[of i] by simp
  then have j: "?j < length ?ws" by simp
  have key: "map fst ?ws ! ?j = fst (?ws ! ?j)" using j by simp
  have look: "map_of ?ws (fst (?ws ! ?j)) = Some (snd (?ws ! ?j))"
    using map_of_nth_key[OF dist[of i] j] key by simp
  let ?c0 = "(fst (?ws ! ?j), worker_url (snd (?ws ! ?j)) @ ''/process'',
              \<lparr>body_filepath = fp, body_start = fst chunk, body_size = snd chunk\<rparr>)"
  show ?case
  proof (cases "post i (worker_url (snd (?ws ! ?j)) @ ''/process'')
                  \<lparr>body_filepath = fp, body_start = fst chunk, body_size = snd chunk\<rparr>")
    case (Inl e)
    with Cons.prems n key look have "r = Inl e" and "calls' = calls @ [?c0]"
      by (simp_all add: Let_def)
    then show ?thesis
      by (intro exI[of _ 1]) simp
  next
    case (Inr res)
    with Cons.prems n key look
    have "dispatch_loop post workers fp (Suc i) chunks (results @ [res]) (calls @ [?c0]) = (r, calls')"
      by (simp add: Let_def)
    from Cons.IH[OF this] obtain k where k: "k \<le> length chunks"
      and c: "calls' = (calls @ [?c0]) @ map (\<lambda>j.
                (fst (workers (Suc i + j) ! ((Suc i + j) mod length (workers (Suc i + j)))),
                 worker_url (snd (workers (Suc i + j) ! ((Suc i + j) mod length (workers (Suc i + j)))))
                   @ ''/process'',
                 \<lparr>body_filepath = fp, body_start = fst (chunks ! j), body_size = snd (chunks ! j)\<rparr>))
              [0..<k]"
      and rr: "(case r of Inl e \<Rightarrow> True | Inr rs \<Rightarrow> k = length chunks \<and> length rs = length (results @ [res]) + k)"
      by blast
    have "calls' = calls @ map (\<lambda>j.
                (fst (workers (i + j) ! ((i + j) mod length (workers (i + j)))),
                 worker_url (snd (workers (i + j) ! ((i + j) mod length (workers (i + j)))))
                   @ ''/process'',
                 \<lparr>body_filepath = fp, body_start = fst ((chunk # chunks) ! j),
                   body_size = snd ((chunk # chunks) ! j)\<rparr>))
              [0..<Suc k]"
      unfolding c by (simp add: map_upt_Suc del: upt_Suc)
    moreover have "(case r of Inl e \<Rightarrow> True | Inr rs \<Rightarrow> Suc k = length (chunk # chunks) \<and> length rs = length results + Suc k)"
      using rr by (cases r) simp_all
    ultimately show ?thesis using k by (intro exI[of _ "Suc k"]) simp
  qed
qed

text \<open>
  The loop has no check for an empty registry: an iteration that finds none divides by
  zero before it calls anyone.
\<close>

lemma dispatch_loop_empty:
  "workers i = [] \<Longrightarrow>
   dispatch_loop post workers fp i (chunk # chunks) results calls = (Inl ZeroDivisionError, calls)"
  by simp

lemma lookup_os: "lookup_name ''os'' = Inl (NameError ''os'')"
  by (simp add: lookup_name_def module_globals_def builtins_def)








text \<open>
  Claim C8 does not hold of the code. With two workers registered and a well-formed
  request for a file of 10 bytes in chunks of 4, the handler ends with the NameError
  for \<open>os\<close> and has called no worker: no chunk is assigned to anyone.
\<close>

theorem round_robin_not_reached:
  "handle_process_chunk (\<lambda>fp. Inr 10)
     (\<lambda>i url body. Inr \<lparr>avg_response_time = 100, requests_per_second = 5, error_rate = 0, malformed_lines = 0\<rparr>)
     (\<lambda>i. [(''w1'', \<lparr>worker_url = ''http://a'', status = ''active''\<rparr>),
           (''w2'', \<lparr>worker_url = ''http://b'', status = ''active''\<rparr>)])
     (Some (JObj [(''filepath'', JStr ''access.log''), (''chunk_size'', JInt 4)]))
   = (Some (Inl (NameError ''os'')), [])"
  by (simp add: handle_process_chunk_def request_json_def lookup_os)

section \<open>Properties of the chunk parser\<close>

lemma space_is_space: "is_space 32"
  by (simp add: is_space_def space_codepoints_def)

lemma m_not_digit: "\<not> is_digit 109"
  by (simp add: is_digit_def digit_zero_def digit_zeros_def)

lemma rmatch_Plus_greedy:
  assumes "rejects a p"
  shows "rmatch (Plus a # p) s opened groups =
         (if takeWhile (accepts a) s = [] then None
          else rmatch p (dropWhile (accepts a) s)
                 (map (\<lambda>g. g @ takeWhile (accepts a) s) opened) groups)"
proof (induction s arbitrary: opened)
  case Nil
  then show ?case by simp
next
  case (Cons c cs)
  show ?case
  proof (cases "accepts a c")
    case False
    then show ?thesis by simp
  next
    case True
    let ?op = "map (\<lambda>g. g @ [c]) opened"
    show ?thesis
    proof (cases "takeWhile (accepts a) cs = []")
      case t: True
      then have d: "dropWhile (accepts a) cs = cs"
        by (metis takeWhile_dropWhile_id append_Nil)
      from t Cons.IH[of ?op] have "rmatch (Plus a # p) cs ?op groups = None" by simp
      with True t d show ?thesis by simp
    next
      case f: False
      then obtain c' cs' where cs: "cs = c' # cs'" and acc: "accepts a c'"
        by (cases cs) (auto split: if_splits)
      from assms acc have rej: "rmatch p cs ?op groups = None"
        unfolding rejects_def cs by blast
      have comp: "map (\<lambda>g. g @ takeWhile (accepts a) cs) ?op
                  = map (\<lambda>g. g @ c # takeWhile (accepts a) cs) opened"
        by simp
      have step: "rmatch (Plus a # p) (c # cs) opened groups =
            (case rmatch (Plus a # p) cs ?op groups of
               Some r \<Rightarrow> Some r
             | None \<Rightarrow> rmatch p cs ?op groups)"
        using True by simp
      have ih: "rmatch (Plus a # p) cs ?op groups =
            rmatch p (dropWhile (accepts a) cs) (map (\<lambda>g. g @ c # takeWhile (accepts a) cs) opened) groups"
        unfolding Cons.IH[of ?op] using f by (simp add: comp_def)
      have tw: "takeWhile (accepts a) (c # cs) = c # takeWhile (accepts a) cs"
        and dw: "dropWhile (accepts a) (c # cs) = dropWhile (accepts a) cs"
        using True by simp_all
      show ?thesis
        unfolding step ih tw dw using rej by (simp split: option.splits)
    qed
  qed
qed

lemma rmatch_Plus_iff:
  assumes "rejects a p"
  shows "rmatch (Plus a # p) s opened groups = Some r \<longleftrightarrow>
         (\<exists>t rest. s = t @ rest \<and> t \<noteq> [] \<and> (\<forall>c \<in> set t. accepts a c)
            \<and> rmatch p rest (map (\<lambda>g. g @ t) opened) groups = Some r)"
proof
  assume "rmatch (Plus a # p) s opened groups = Some r"
  then have ne: "takeWhile (accepts a) s \<noteq> []"
    and m: "rmatch p (dropWhile (accepts a) s)
              (map (\<lambda>g. g @ takeWhile (accepts a) s) opened) groups = Some r"
    unfolding rmatch_Plus_greedy[OF assms] by (simp_all split: if_splits)
  have "s = takeWhile (accepts a) s @ dropWhile (accepts a) s" by simp
  moreover have "\<forall>c \<in> set (takeWhile (accepts a) s). accepts a c"
    by (auto dest: set_takeWhileD)
  ultimately show "\<exists>t rest. s = t @ rest \<and> t \<noteq> [] \<and> (\<forall>c \<in> set t. accepts a c)
            \<and> rmatch p rest (map (\<lambda>g. g @ t) opened) groups = Some r"
    using ne m by blast
next
  assume "\<exists>t rest. s = t @ rest \<and> t \<noteq> [] \<and> (\<forall>c \<in> set t. accepts a c)
            \<and> rmatch p rest (map (\<lambda>g. g @ t) opened) groups = Some r"
  then obtain t rest where s: "s = t @ rest" and ne: "t \<noteq> []"
    and all: "\<forall>c \<in> set t. accepts a c"
    and m: "rmatch p rest (map (\<lambda>g. g @ t) opened) groups = Some r"
    by blast
  have stop: "takeWhile (accepts a) rest = []"
  proof (cases rest)
    case Nil
    then show ?thesis by simp
  next
    case (Cons c cs)
    with m assms have "\<not> accepts a c" unfolding rejects_def by fastforce
    with Cons show ?thesis by simp
  qed
  then have drop: "dropWhile (accepts a) rest = rest"
    by (metis takeWhile_dropWhile_id append_Nil)
  have tw: "takeWhile (accepts a) s = t"
    unfolding s using all stop by simp
  have dw: "dropWhile (accepts a) s = rest"
    unfolding s using all drop by simp
  show "rmatch (Plus a # p) s opened groups = Some r"
    unfolding rmatch_Plus_greedy[OF assms] tw dw using ne m by simp
qed

lemma rmatch_Lit_iff:
  "rmatch (One (Lit d) # p) s opened groups = Some r \<longleftrightarrow>
   (\<exists>rest. s = d # rest \<and> rmatch p rest (map (\<lambda>g. g @ [d]) opened) groups = Some r)"
  by (cases s) auto

lemma rmatch_lits_iff:
  "rmatch (lits w @ p) s opened groups = Some r \<longleftrightarrow>
   (\<exists>rest. s = w @ rest \<and> rmatch p rest (map (\<lambda>g. g @ w) opened) groups = Some r)"
proof (induction w arbitrary: s opened)
  case Nil
  then show ?case by (simp add: lits_def)
next
  case (Cons d w)
  have "lits (d # w) @ p = One (Lit d) # (lits w @ p)" by (simp add: lits_def)
  then show ?case
    using Cons.IH by (auto simp add: rmatch_Lit_iff comp_def simp del: rmatch.simps)
qed

lemma rejects_space: "rejects NonSpace (One (Lit 32) # p)"
  unfolding rejects_def using space_is_space by auto

lemma rejects_close_space: "rejects NonSpace (Close # One (Lit 32) # p)"
  unfolding rejects_def using space_is_space by (auto split: list.splits)

lemma rejects_close_m: "rejects Digit (Close # One (Lit 109) # p)"
  unfolding rejects_def using m_not_digit by (auto split: list.splits)


lemma token_iff: "token t \<longleftrightarrow> t \<noteq> [] \<and> (\<forall>c \<in> set t. accepts NonSpace c)"
  by (simp add: token_def)

lemma digits_iff: "digits ds \<longleftrightarrow> ds \<noteq> [] \<and> (\<forall>c \<in> set ds. accepts Digit c)"
  by (simp add: digits_def)

lemma rmatch_ms:
  "rmatch [One (Lit 109), One (Lit 115)] s opened groups = Some r \<longleftrightarrow>
   (\<exists>rest. s = cps ''ms'' @ rest) \<and> r = groups"
  by (auto simp: rmatch_Lit_iff cps_def simp del: rmatch.simps(4,5))

lemma rmatch_digits_ms:
  "rmatch [Open, Plus Digit, Close, One (Lit 109), One (Lit 115)] s [] groups = Some r \<longleftrightarrow>
   (\<exists>ds rest. s = ds @ cps ''ms'' @ rest \<and> digits ds \<and> r = groups @ [ds])"
proof -
  have "rmatch [Open, Plus Digit, Close, One (Lit 109), One (Lit 115)] s [] groups = Some r
        \<longleftrightarrow> rmatch (Plus Digit # Close # One (Lit 109) # [One (Lit 115)]) s [[]] groups = Some r"
    by simp
  also have "\<dots> \<longleftrightarrow> (\<exists>ds rest. s = ds @ rest \<and> digits ds
        \<and> rmatch [One (Lit 109), One (Lit 115)] rest [] (groups @ [ds]) = Some r)"
    unfolding rmatch_Plus_iff[OF rejects_close_m] digits_iff by simp
  also have "\<dots> \<longleftrightarrow> (\<exists>ds rest. s = ds @ cps ''ms'' @ rest \<and> digits ds \<and> r = groups @ [ds])"
    unfolding rmatch_ms by blast
  finally show ?thesis .
qed

lemma rmatch_level:
  "rmatch ([Open, Plus NonSpace, Close] @ lits (cps '' Request processed in '')
           @ [Open, Plus Digit, Close, One (Lit 109), One (Lit 115)]) s [] groups = Some r \<longleftrightarrow>
   (\<exists>t3 ds rest. s = t3 @ cps '' Request processed in '' @ ds @ cps ''ms'' @ rest
        \<and> token t3 \<and> digits ds \<and> r = groups @ [t3, ds])"
proof -
  let ?tail = "[Open, Plus Digit, Close, One (Lit 109), One (Lit 115)]"
  let ?w = "cps '' Request processed in ''"
  have w: "lits ?w @ ?tail = One (Lit 32) # (lits (cps ''Request processed in '') @ ?tail)"
    by (simp add: lits_def cps_def)
  have "rmatch ([Open, Plus NonSpace, Close] @ lits ?w @ ?tail) s [] groups = Some r
        \<longleftrightarrow> rmatch (Plus NonSpace # Close # lits ?w @ ?tail) s [[]] groups = Some r"
    by simp
  also have "\<dots> \<longleftrightarrow> (\<exists>t3 rest. s = t3 @ rest \<and> token t3
        \<and> rmatch (lits ?w @ ?tail) rest [] (groups @ [t3]) = Some r)"
    unfolding w rmatch_Plus_iff[OF rejects_close_space] token_iff by simp
  also have "\<dots> \<longleftrightarrow> (\<exists>t3 rest. s = t3 @ ?w @ rest \<and> token t3
        \<and> rmatch ?tail rest [] (groups @ [t3]) = Some r)"
    unfolding rmatch_lits_iff by auto
  also have "\<dots> \<longleftrightarrow> (\<exists>t3 ds rest. s = t3 @ ?w @ ds @ cps ''ms'' @ rest
        \<and> token t3 \<and> digits ds \<and> r = groups @ [t3, ds])"
    unfolding rmatch_digits_ms by auto
  finally show ?thesis .
qed

lemma re_match_pattern_iff:
  "re_match pattern line = Some r \<longleftrightarrow>
   (\<exists>t1 t2 t3 ds rest.
      line = t1 @ [32] @ t2 @ [32] @ t3 @ cps '' Request processed in '' @ ds @ cps ''ms'' @ rest
      \<and> token t1 \<and> token t2 \<and> token t3 \<and> digits ds \<and> r = [t1 @ [32] @ t2, t3, ds])"
proof -
  let ?level = "[Open, Plus NonSpace, Close] @ lits (cps '' Request processed in '')
           @ [Open, Plus Digit, Close, One (Lit 109), One (Lit 115)]"
  have "re_match pattern line = Some r
        \<longleftrightarrow> rmatch (Plus NonSpace # One (Lit 32) # Plus NonSpace # Close # One (Lit 32) # ?level)
              line [[]] [] = Some r"
    by (simp add: re_match_def pattern_def)
  also have "\<dots> \<longleftrightarrow> (\<exists>t1 rest. line = t1 @ rest \<and> token t1
        \<and> rmatch (One (Lit 32) # Plus NonSpace # Close # One (Lit 32) # ?level)
              rest [t1] [] = Some r)"
    unfolding rmatch_Plus_iff[OF rejects_space] token_iff by simp
  also have "\<dots> \<longleftrightarrow> (\<exists>t1 rest. line = t1 @ [32] @ rest \<and> token t1
        \<and> rmatch (Plus NonSpace # Close # One (Lit 32) # ?level)
              rest [t1 @ [32]] [] = Some r)"
    unfolding rmatch_Lit_iff by auto
  also have "\<dots> \<longleftrightarrow> (\<exists>t1 t2 rest. line = t1 @ [32] @ t2 @ rest \<and> token t1 \<and> token t2
        \<and> rmatch (One (Lit 32) # ?level) rest [] [t1 @ [32] @ t2] = Some r)"
    unfolding rmatch_Plus_iff[OF rejects_close_space] token_iff by auto
  also have "\<dots> \<longleftrightarrow> (\<exists>t1 t2 rest. line = t1 @ [32] @ t2 @ [32] @ rest \<and> token t1 \<and> token t2
        \<and> rmatch ?level rest [] [t1 @ [32] @ t2] = Some r)"
    unfolding rmatch_Lit_iff by auto
  also have "\<dots> \<longleftrightarrow> (\<exists>t1 t2 t3 ds rest.
      line = t1 @ [32] @ t2 @ [32] @ t3 @ cps '' Request processed in '' @ ds @ cps ''ms'' @ rest
      \<and> token t1 \<and> token t2 \<and> token t3 \<and> digits ds \<and> r = [t1 @ [32] @ t2, t3, ds])"
    unfolding rmatch_level by (simp only: append.simps) blast
  finally show ?thesis .
qed


lemma re_match_request_line:
  "(\<exists>r. re_match pattern line = Some r) \<longleftrightarrow> (\<exists>ds. request_line line ds)"
  unfolding re_match_pattern_iff request_line_def by blast

lemma request_line_groups:
  assumes "request_line line ds"
  shows "\<exists>timestamp log_level. re_match pattern line = Some [timestamp, log_level, ds]"
proof -
  from assms obtain t1 t2 t3 rest where
    "line = t1 @ [32] @ t2 @ [32] @ t3 @ cps '' Request processed in '' @ ds @ cps ''ms'' @ rest"
    "token t1" "token t2" "token t3" "digits ds"
    unfolding request_line_def by blast
  then have "re_match pattern line = Some [t1 @ [32] @ t2, t3, ds]"
    unfolding re_match_pattern_iff by blast
  then show ?thesis by blast
qed

lemma digit_not_special:
  assumes "is_digit c"
  shows "c \<notin> set int_space_codepoints" and "c \<noteq> 43" and "c \<noteq> 45" and "c \<noteq> 95"
proof -
  have "list_all (\<lambda>x. \<not> is_digit x) (int_space_codepoints @ [43, 45, 95])"
    by (simp add: int_space_codepoints_def is_digit_def digit_zero_def digit_zeros_def)
  then have "\<forall>x \<in> set int_space_codepoints \<union> {43, 45, 95}. \<not> is_digit x"
    by (simp add: list_all_iff)
  with assms show "c \<notin> set int_space_codepoints" and "c \<noteq> 43" and "c \<noteq> 45" and "c \<noteq> 95"
    by auto
qed

lemma digit_run_digits: "digits ds \<Longrightarrow> digit_run ds"
proof (induction ds rule: digit_run.induct)
  case 1
  then show ?case by (simp add: digits_def)
next
  case (2 c)
  then show ?case by (simp add: digits_def)
next
  case (3 c d r)
  from "3.prems" have c: "is_digit c" and d: "is_digit d" and r: "digits (d # r)"
    by (simp_all add: digits_def)
  from d have "d \<noteq> 95" by (rule digit_not_special)
  with c r "3.IH"(2) show ?case by simp
qed

lemma strip_digits:
  assumes "digits ds"
  shows "strip ds = ds"
proof -
  let ?P = "\<lambda>c. c \<in> set int_space_codepoints"
  from assms have ne: "ds \<noteq> []" and all: "\<forall>c \<in> set ds. is_digit c"
    by (simp_all add: digits_def)
  from ne all have "\<not> ?P (hd ds)" by (simp add: digit_not_special(1))
  with ne have front: "dropWhile ?P ds = ds" by (cases ds) simp_all
  from ne all have "\<not> ?P (last ds)" by (simp add: digit_not_special(1))
  with ne have "\<not> ?P (hd (rev ds))" by (simp add: hd_rev)
  with ne have rear: "dropWhile ?P (rev ds) = rev ds" by (cases "rev ds") simp_all
  show ?thesis unfolding strip_def front rear by simp
qed

lemma int_of_str_digits:
  assumes "digits ds"
  shows "int_of_str ds =
         (if int_max_str_digits < length ds then Inl ValueError else Inr (decimal_value ds))"
proof -
  from assms have ne: "ds \<noteq> []" and all: "\<forall>c \<in> set ds. is_digit c"
    by (simp_all add: digits_def)
  from ne all have "is_digit (hd ds)" by simp
  then have sign: "hd ds \<noteq> 43" "hd ds \<noteq> 45" by (simp_all add: digit_not_special)
  from all have "\<forall>c \<in> set ds. c \<noteq> 95" using digit_not_special(4) by blast
  then have under: "filter (\<lambda>c. c \<noteq> 95) ds = ds" by simp
  show ?thesis
    unfolding int_of_str_def strip_digits[OF assms] Let_def
    using sign under digit_run_digits[OF assms] by simp
qed

text \<open>
  Claim C2, as amended. A line is matched exactly when it starts with three tokens of
  non-space characters, a single space after each of the first two, followed by
  \<open>" Request processed in "\<close>, a run of decimal digits and \<open>ms\<close> (anything may follow).
  Such a line, when its run has at most 4300 digits, adds 1 to the request counter and
  the value of the digits to the time sum; with a longer run \<open>int\<close> raises ValueError
  and the processing of the chunk ends there. Every other line adds 1 to the malformed
  counter and leaves the time sum as it is.
\<close>

theorem process_line_classifies:
  "(re_match pattern line \<noteq> None \<longleftrightarrow> (\<exists>ds. request_line line ds))
   \<and> (\<forall>ds. request_line line ds \<and> length ds \<le> int_max_str_digits \<longrightarrow>
         process_line line (total_time, total_requests, malformed)
           = Inr (total_time + decimal_value ds, total_requests + 1, malformed))
   \<and> (\<forall>ds. request_line line ds \<and> int_max_str_digits < length ds \<longrightarrow>
         process_line line (total_time, total_requests, malformed) = Inl ValueError)
   \<and> ((\<nexists>ds. request_line line ds) \<longrightarrow>
         process_line line (total_time, total_requests, malformed)
           = Inr (total_time, total_requests, malformed + 1))"
proof (intro conjI allI impI)
  show "re_match pattern line \<noteq> None \<longleftrightarrow> (\<exists>ds. request_line line ds)"
    using re_match_request_line[of line] by auto
next
  fix ds assume a: "request_line line ds \<and> length ds \<le> int_max_str_digits"
  then have d: "digits ds" unfolding request_line_def by blast
  from a request_line_groups obtain timestamp log_level
    where "re_match pattern line = Some [timestamp, log_level, ds]" by blast
  then show "process_line line (total_time, total_requests, malformed)
           = Inr (total_time + decimal_value ds, total_requests + 1, malformed)"
    using a int_of_str_digits[OF d] by simp
next
  fix ds assume a: "request_line line ds \<and> int_max_str_digits < length ds"
  then have d: "digits ds" unfolding request_line_def by blast
  from a request_line_groups obtain timestamp log_level
    where "re_match pattern line = Some [timestamp, log_level, ds]" by blast
  then show "process_line line (total_time, total_requests, malformed) = Inl ValueError"
    using a int_of_str_digits[OF d] by simp
next
  assume "\<nexists>ds. request_line line ds"
  then have "re_match pattern line = None"
    using re_match_request_line[of line] by (cases "re_match pattern line") auto
  then show "process_line line (total_time, total_requests, malformed)
           = Inr (total_time, total_requests, malformed + 1)"
    by simp
qed

theorem process_line_classifies_witness:
  "process_line (cps ''2024-01-01 12:00:00 INFO Request processed in 123ms'') (0, 0, 0)
     = Inr (123, 1, 0)
   \<and> process_line (cps ''a b c Request processed in '' @ replicate 4301 49 @ cps ''ms'') (0, 0, 0)
     = Inl ValueError
   \<and> process_line (cps ''2024-01-01 INFO Request processed in 123ms'') (0, 0, 0)
     = Inr (0, 0, 1)"
proof -
  let ?good = "cps ''2024-01-01 12:00:00 INFO Request processed in 123ms''"
  let ?long = "cps ''a b c Request processed in '' @ replicate 4301 49 @ cps ''ms''"
  let ?bad = "cps ''2024-01-01 INFO Request processed in 123ms''"
  have d49: "is_digit 49"
    by (simp add: is_digit_def digit_zero_def digit_zeros_def)
  have "?good = cps ''2024-01-01'' @ [32] @ cps ''12:00:00'' @ [32] @ cps ''INFO''
                 @ cps '' Request processed in '' @ cps ''123'' @ cps ''ms'' @ []"
    by (simp add: cps_def)
  moreover have "token (cps ''2024-01-01'')" "token (cps ''12:00:00'')" "token (cps ''INFO'')"
    by (simp_all add: token_def cps_def is_space_def space_codepoints_def)
  moreover have "digits (cps ''123'')"
    by (simp add: digits_def cps_def is_digit_def digit_zero_def digit_zeros_def)
  ultimately have shape: "request_line ?good (cps ''123'')"
    unfolding request_line_def by blast
  have val: "decimal_value (cps ''123'') = 123"
    by (simp add: decimal_value_def digit_value_def digit_zero_def digit_zeros_def cps_def)
  have short: "length (cps ''123'') \<le> int_max_str_digits"
    by (simp add: cps_def int_max_str_digits_def)
  have matched: "process_line ?good (0, 0, 0) = Inr (123, 1, 0)"
    using process_line_classifies[of ?good 0 0 0] shape val short by auto
  have "?long = [97] @ [32] @ [98] @ [32] @ [99]
                 @ cps '' Request processed in '' @ replicate 4301 49 @ cps ''ms'' @ []"
    by (simp add: cps_def)
  moreover have "token [97]" "token [98]" "token [99]"
    by (simp_all add: token_def is_space_def space_codepoints_def)
  moreover have "digits (replicate 4301 49)"
    using d49 by (simp add: digits_def)
  ultimately have long_shape: "request_line ?long (replicate 4301 49)"
    unfolding request_line_def by blast
  have over: "int_max_str_digits < length (replicate 4301 (49::nat))"
    by (simp add: int_max_str_digits_def)
  have refused: "process_line ?long (0, 0, 0) = Inl ValueError"
    using process_line_classifies[of ?long 0 0 0] long_shape over by blast
  have "re_match pattern ?bad = None"
    by (simp add: re_match_def pattern_def lits_def cps_def is_space_def space_codepoints_def
        is_digit_def digit_zero_def digit_zeros_def)
  then have "\<nexists>ds. request_line ?bad ds"
    using process_line_classifies[of ?bad 0 0 0] by simp
  then have "process_line ?bad (0, 0, 0) = Inr (0, 0, 1)"
    using process_line_classifies[of ?bad 0 0 0] by simp
  with matched refused show ?thesis by simp
qed

text \<open>
  Claim C2 as stated fails: the line \<open>a b Request processed in 123ms\<close> has the shape
  with two tokens before the fixed text, and the parser counts it as malformed.
\<close>

theorem two_token_line_counterexample:
  "spec_request_line (cps ''a b Request processed in 123ms'') (cps ''123'')
   \<and> process_line (cps ''a b Request processed in 123ms'') (0, 0, 0) = Inr (0, 0, 1)"
proof -
  have "cps ''a b Request processed in 123ms''
        = [97] @ [32] @ [98] @ cps '' Request processed in '' @ cps ''123'' @ cps ''ms''"
    by (simp add: cps_def)
  moreover have "token [97]" "token [98]"
    by (simp_all add: token_def is_space_def space_codepoints_def)
  moreover have "digits (cps ''123'')"
    by (simp add: digits_def cps_def is_digit_def digit_zero_def digit_zeros_def)
  ultimately have "spec_request_line (cps ''a b Request processed in 123ms'') (cps ''123'')"
    unfolding spec_request_line_def by blast
  moreover have "re_match pattern (cps ''a b Request processed in 123ms'') = None"
    by (simp add: re_match_def pattern_def lits_def cps_def is_space_def space_codepoints_def
        is_digit_def digit_zero_def digit_zeros_def)
  then have "process_line (cps ''a b Request processed in 123ms'') (0, 0, 0) = Inr (0, 0, 1)"
    by simp
  ultimately show ?thesis by simp
qed

end
